theory Spec2Isabelle
  imports Complex_Main
begin

section \<open>WhyCry: data model\<close>

text \<open>
  A Python \<open>str\<close> is a sequence of Unicode code points.  The extended alphabets of
  \<open>whycry.py\<close> hold code points above 255 (the Euro sign is 8364), so a character is
  modelled by its code point, a natural number, and a string by the list of them.
  \<open>str\<close> turns an ASCII literal into such a list.
\<close>

type_synonym pystr = "nat list"

definition str :: "string \<Rightarrow> pystr" where
  "str s = map of_char s"

text \<open>The alphabet constants, lines 17 to 25 of \<open>whycry.py\<close>.\<close>

definition SPACE :: pystr where
  "SPACE = [32]"

definition NUM :: pystr where
  "NUM = str ''0123456789''"

definition HEX :: pystr where
  "HEX = NUM @ str ''abcdef''"

definition ALPHANUM :: pystr where
  "ALPHANUM = HEX @ str ''ghijklmnopqrstuvwxyzABCDEFGHIJKLMNOPQRSTUVWXYZ''"

text \<open>
  The punctuation literal, by code point, each range without its upper end: exclamation
  mark (33) to slash (47), colon (58) to commercial at (64), left bracket, backslash,
  right bracket, caret, underscore and backquote (91 to 96), left brace to tilde (123 to
  126).  The source writes backslash and right bracket as an escape Python does not
  know, which keeps both characters.
\<close>

definition ASCII_NOSPACE :: pystr where
  "ASCII_NOSPACE = ALPHANUM @ [33..<48] @ [58..<65] @ [91..<97] @ [123..<127]"

definition ASCII :: pystr where
  "ASCII = SPACE @ ASCII_NOSPACE"

text \<open>
  The extension literal of line 23, by code point: the Windows-1252 reading of the bytes
  127 to 159 (the Euro sign is 8364, and the bytes that encoding leaves unassigned stand
  for themselves), then 161 to 255 without 173, the soft hyphen.
\<close>

definition ASCIIEXT_NOSPACE :: pystr where
  "ASCIIEXT_NOSPACE = ASCII_NOSPACE @
     [127, 8364, 129, 8218, 402, 8222, 8230, 8224, 8225, 710, 8240, 352, 8249, 338, 141,
      381, 143, 144, 8216, 8217, 8220, 8221, 8226, 8211, 8212, 732, 8482, 353, 8250, 339,
      157, 382, 376]
     @ [161..<173] @ [174..<256]"

definition ASCIIEXT :: pystr where
  "ASCIIEXT = SPACE @ ASCIIEXT_NOSPACE"

definition MAIL :: pystr where
  "MAIL = str ''abcdefghijklmnopqrstuvwxyz0123456789@.-_+''"

text \<open>The class attribute \<open>DIZ\<close>: a dictionary from alphabet names to alphabets.\<close>

definition DIZ :: "pystr \<rightharpoonup> pystr" where
  "DIZ = map_of
     [(str ''num'', NUM),
      (str ''hex'', HEX),
      (str ''alphanum'', ALPHANUM),
      (str ''ascii_nospace'', ASCII_NOSPACE),
      (str ''ascii'', ASCII),
      (str ''asciiext_nospace'', ASCIIEXT_NOSPACE),
      (str ''asciiext'', ASCIIEXT),
      (str ''mail'', MAIL)]"

text \<open>The exceptions the methods can raise.\<close>

datatype error =
  KeyError | ValueError | ZeroDivisionError | IndexError | AssertionError | AttributeError

text \<open>
  An instance.  \<open>self.text\<close> is the working buffer; \<open>__init__\<close> does not assign it, so
  the field is \<open>None\<close> until the first call that does (reading it before raises
  AttributeError).  \<open>self.signature\<close> is \<open>None\<close> or a hex digest.
\<close>

record WhyCry =
  dictionary :: pystr
  secretkey :: "int list"
  text_buf :: "int list option"
  signature :: "pystr option"

section \<open>The private methods\<close>

text \<open>\<open>str.index\<close> on a single character: the first position, or ValueError.\<close>

fun index_of :: "'a list \<Rightarrow> 'a \<Rightarrow> nat option" where
  "index_of [] c = None"
| "index_of (x # xs) c = (if x = c then Some 0 else map_option Suc (index_of xs c))"

text \<open>\<open>_build_input\<close>: \<open>[f(char) for char in string]\<close> with \<open>f = self.dictionary.index\<close>.\<close>

fun build_input :: "pystr \<Rightarrow> pystr \<Rightarrow> error + int list" where
  "build_input d [] = Inr []"
| "build_input d (c # cs) =
     (case index_of d c of
        None \<Rightarrow> Inl ValueError
      | Some i \<Rightarrow>
          (case build_input d cs of
             Inl e \<Rightarrow> Inl e
           | Inr t \<Rightarrow> Inr (int i # t)))"

text \<open>
  \<open>_translate\<close>.  \<open>len(t) // len(s)\<close> raises ZeroDivisionError on an empty key, before
  the buffer is assigned.  \<open>s * r\<close> is the key repeated \<open>r\<close> times, and \<open>map\<close> over two
  sequences stops with the shorter one, as \<open>zip\<close> does.
\<close>

definition translate :: "bool \<Rightarrow> WhyCry \<Rightarrow> error + WhyCry" where
  "translate mode self =
     (case text_buf self of
        None \<Rightarrow> Inl AttributeError
      | Some t \<Rightarrow>
          let s = secretkey self;
              d = int (length (dictionary self))
          in if s = [] then Inl ZeroDivisionError
             else
               let r = length t div length s + 1
               in if mode
                  then Inr (self\<lparr>text_buf :=
                         Some [if x < d then x else x - d. x \<leftarrow> map2 (+) t (concat (replicate r s))]\<rparr>)
                  else Inr (self\<lparr>text_buf :=
                         Some [if x > -1 then x else x + d. x \<leftarrow> map2 (-) t (concat (replicate r s))]\<rparr>))"

text \<open>
  Randomness.  \<open>random()\<close> returns a float in the half-open interval from 0 to 1; the
  model reads the successive results from a list of reals, the draws still to come.
  A run that asks for a draw when the list is used up has not finished within the
  supplied draws, and its value is \<open>None\<close>.  \<open>int\<close> on a float truncates towards zero.
\<close>

definition py_int :: "real \<Rightarrow> int" where
  "py_int x = (if x < 0 then \<lceil>x\<rceil> else \<lfloor>x\<rfloor>)"

text \<open>
  The rejection loop of \<open>_wide\<close>, lines 93 to 95: \<open>c1 = c2 = t[-1]\<close>, then
  \<open>while c1 == c2: c1 = int(r() * max)\<close>.  The body runs at least once.
\<close>

fun redraw :: "int \<Rightarrow> int \<Rightarrow> real list \<Rightarrow> (int \<times> real list) option" where
  "redraw mx c2 [] = None"
| "redraw mx c2 (r # rs) =
     (let c1 = py_int (r * of_int mx)
      in if c1 = c2 then redraw mx c2 rs else Some (c1, rs))"

text \<open>
  The inner \<open>for _ in range(s)\<close> loop, lines 92 to 96: each round appends one accepted
  draw.  The buffer is never empty here: the two markers were added before.
\<close>

fun disturb :: "int \<Rightarrow> nat \<Rightarrow> int list \<Rightarrow> real list \<Rightarrow> (int list \<times> real list) option" where
  "disturb mx 0 t rs = Some (t, rs)"
| "disturb mx (Suc n) t rs =
     (case redraw mx (last t) rs of
        None \<Rightarrow> None
      | Some (c1, rs') \<Rightarrow> disturb mx n (t @ [c1]) rs')"

text \<open>
  \<open>_wide\<close> with a true \<open>mode\<close>, lines 85 to 97.  \<open>t[0]\<close> raises IndexError on an empty
  buffer.  \<open>range\<close> of a negative number is empty, as \<open>nat\<close> of it is zero.  The list is
  changed in place, so the buffer of the instance is the padded list.
\<close>

definition wide_pad :: "int \<Rightarrow> real list \<Rightarrow> WhyCry \<Rightarrow> (error + WhyCry) option" where
  "wide_pad lenght rnd self =
     (case text_buf self of
        None \<Rightarrow> Some (Inl AttributeError)
      | Some t \<Rightarrow>
          if t = [] then Some (Inl IndexError)
          else
            let t1 = hd t # t;
                t2 = t1 @ [last t1];
                cadd = lenght - int (length t2)
            in (case rnd of
                  [] \<Rightarrow> None
                | r0 # rs \<Rightarrow>
                    let cside = py_int (r0 * of_int cadd);
                        mx = int (length (dictionary self)) - 1
                    in (case disturb mx (nat cside) t2 rs of
                          None \<Rightarrow> None
                        | Some (t3, rs1) \<Rightarrow>
                            (case disturb mx (nat (cadd - cside)) (rev t3) rs1 of
                               None \<Rightarrow> None
                             | Some (t4, rs2) \<Rightarrow>
                                 Some (Inr (self\<lparr>text_buf := Some (rev t4)\<rparr>))))))"

text \<open>
  The scan of \<open>_wide\<close> with a false \<open>mode\<close>, lines 100 to 103:
  \<open>for x in range(len(t) - 1): if t[x] == t[x + 1]: ... break\<close>.  The result is the
  index at which the loop breaks, or \<open>None\<close> when it runs to its end.
\<close>

function scan_from :: "int list \<Rightarrow> nat \<Rightarrow> nat option" where
  "scan_from t x =
     (if x + 1 < length t
      then (if t ! x = t ! (x + 1) then Some x else scan_from t (x + 1))
      else None)"
  by pat_completeness auto
termination
  by (relation "measure (\<lambda>(t, x). length t - x)") auto

declare scan_from.simps [simp del]

text \<open>One pass, lines 100 to 108: the slice \<open>t[x + 1:]\<close>, then \<open>t.reverse()\<close>.\<close>

definition unwide_pass :: "int list \<Rightarrow> int list option" where
  "unwide_pass t =
     (case scan_from t 0 of
        None \<Rightarrow> None
      | Some x \<Rightarrow> Some (rev (drop (x + 1) t)))"

text \<open>
  \<open>for m in range(2)\<close>: the passes, each on the result of the one before; the \<open>else\<close>
  of the scan leaves the loop with no list.
\<close>

fun unwide_loop :: "nat \<Rightarrow> int list \<Rightarrow> int list option" where
  "unwide_loop 0 t = Some t"
| "unwide_loop (Suc m) t =
     (case unwide_pass t of
        None \<Rightarrow> None
      | Some t' \<Rightarrow> unwide_loop m t')"

text \<open>
  \<open>_wide\<close> with a false \<open>mode\<close>, lines 99 to 110: when a scan finds nothing the buffer
  becomes \<open>[]\<close>, otherwise it becomes the list left after the two passes.
\<close>

definition unwide :: "WhyCry \<Rightarrow> error + WhyCry" where
  "unwide self =
     (case text_buf self of
        None \<Rightarrow> Inl AttributeError
      | Some t \<Rightarrow>
          (case unwide_loop 2 t of
             None \<Rightarrow> Inr (self\<lparr>text_buf := Some []\<rparr>)
           | Some t' \<Rightarrow> Inr (self\<lparr>text_buf := Some t'\<rparr>)))"

definition wide :: "bool \<Rightarrow> int \<Rightarrow> real list \<Rightarrow> WhyCry \<Rightarrow> (error + WhyCry) option" where
  "wide mode lenght rnd self = (if mode then wide_pad lenght rnd self else Some (unwide self))"

text \<open>
  Python indexing \<open>f[x]\<close>: a negative index counts from the end, and an index outside
  both ranges raises IndexError.
\<close>

definition getitem :: "'a list \<Rightarrow> int \<Rightarrow> 'a option" where
  "getitem f x =
     (let n = int (length f)
      in if 0 \<le> x \<and> x < n then Some (f ! nat x)
         else if - n \<le> x \<and> x < 0 then Some (f ! nat (n + x))
         else None)"

fun render :: "pystr \<Rightarrow> int list \<Rightarrow> error + pystr" where
  "render f [] = Inr []"
| "render f (x # xs) =
     (case getitem f x of
        None \<Rightarrow> Inl IndexError
      | Some c \<Rightarrow>
          (case render f xs of
             Inl e \<Rightarrow> Inl e
           | Inr cs \<Rightarrow> Inr (c # cs)))"

text \<open>\<open>_output\<close>: \<open>''.join([f[x] for x in self.text])\<close>.\<close>

definition "output" :: "WhyCry \<Rightarrow> error + pystr" where
  "output self =
     (case text_buf self of
        None \<Rightarrow> Inl AttributeError
      | Some t \<Rightarrow> render (dictionary self) t)"

section \<open>The public methods\<close>

text \<open>
  Each public method returns its result, or the exception it raises, together with the
  instance as the call leaves it.  \<open>_sign\<close> is the SHA-512 hex digest of \<open>hashlib\<close>,
  a library outside the repository: the methods that sign take it as the parameter
  \<open>sha\<close>, a function from strings to strings.
\<close>

definition WhyCry_init :: "pystr \<Rightarrow> pystr \<Rightarrow> error + WhyCry" where
  "WhyCry_init dict_name key =
     (case DIZ dict_name of
        None \<Rightarrow> Inl KeyError
      | Some d \<Rightarrow>
          (case build_input d key of
             Inl e \<Rightarrow> Inl e
           | Inr k \<Rightarrow>
               Inr \<lparr>dictionary = d, secretkey = k, text_buf = None, signature = None\<rparr>))"

definition encode ::
  "(pystr \<Rightarrow> pystr) \<Rightarrow> pystr \<Rightarrow> bool \<Rightarrow> bool \<Rightarrow> WhyCry \<Rightarrow> (error + pystr) \<times> WhyCry" where
  "encode sha text mode create_signature self =
     (case build_input (dictionary self) text of
        Inl e \<Rightarrow> (Inl e, self)
      | Inr t \<Rightarrow>
          let s1 = self\<lparr>text_buf := Some t\<rparr>
          in (case translate mode s1 of
                Inl e \<Rightarrow> (Inl e, s1)
              | Inr s2 \<Rightarrow>
                  let s3 = (if create_signature then s2\<lparr>signature := Some (sha text)\<rparr> else s2)
                  in (output s3, s3)))"

definition decode :: "(pystr \<Rightarrow> pystr) \<Rightarrow> pystr \<Rightarrow> WhyCry \<Rightarrow> (error + pystr) \<times> WhyCry" where
  "decode sha text self = encode sha text False False self"

definition wencode ::
  "(pystr \<Rightarrow> pystr) \<Rightarrow> pystr \<Rightarrow> int \<Rightarrow> bool \<Rightarrow> real list \<Rightarrow> WhyCry
     \<Rightarrow> ((error + pystr) \<times> WhyCry) option" where
  "wencode sha text lenght create_signature rnd self =
     (if \<not> (lenght > int (length text) + 2) then Some (Inl AssertionError, self)
      else
        (case build_input (dictionary self) text of
           Inl e \<Rightarrow> Some (Inl e, self)
         | Inr t \<Rightarrow>
             let s1 = self\<lparr>text_buf := Some t\<rparr>
             in (case wide True lenght rnd s1 of
                   None \<Rightarrow> None
                 | Some (Inl e) \<Rightarrow> Some (Inl e, s1)
                 | Some (Inr s2) \<Rightarrow>
                     (case translate True s2 of
                        Inl e \<Rightarrow> Some (Inl e, s2)
                      | Inr s3 \<Rightarrow>
                          let s4 = (if create_signature
                                    then s3\<lparr>signature := Some (sha text)\<rparr> else s3)
                          in Some (output s4, s4)))))"

definition wdecode :: "pystr \<Rightarrow> WhyCry \<Rightarrow> (error + pystr) \<times> WhyCry" where
  "wdecode text self =
     (case build_input (dictionary self) text of
        Inl e \<Rightarrow> (Inl e, self)
      | Inr t \<Rightarrow>
          let s1 = self\<lparr>text_buf := Some t\<rparr>
          in (case translate False s1 of
                Inl e \<Rightarrow> (Inl e, s1)
              | Inr s2 \<Rightarrow>
                  (case unwide s2 of
                     Inl e \<Rightarrow> (Inl e, s2)
                   | Inr s3 \<Rightarrow> (output s3, s3))))"

definition verify :: "(pystr \<Rightarrow> pystr) \<Rightarrow> pystr \<Rightarrow> WhyCry \<Rightarrow> (error + bool) \<times> WhyCry" where
  "verify sha sig self =
     (case output self of
        Inl e \<Rightarrow> (Inl e, self)
      | Inr out \<Rightarrow> (Inr (sig = sha out), self))"


section \<open>Vocabulary of the properties\<close>

text \<open>Every entry of an index list is a position of the instance's alphabet.\<close>

definition in_alphabet :: "WhyCry \<Rightarrow> int list \<Rightarrow> bool" where
  "in_alphabet self t = (\<forall>x\<in>set t. 0 \<le> x \<and> x < int (length (dictionary self)))"

text \<open>
  The instance of the worked example: alphabet \<open>num\<close>, key \<open>137\<close>, with the indices
  of the text \<open>582\<close> in the buffer.
\<close>

definition num137 :: WhyCry where
  "num137 = \<lparr>dictionary = NUM, secretkey = [1, 3, 7], text_buf = Some [5, 8, 2], signature = None\<rparr>"

section \<open>The stream transform\<close>


lemma length_concat_replicate: "length (concat (replicate r s)) = r * length s"
  by (induction r) auto

lemma nth_concat_replicate:
  "i < r * length s \<Longrightarrow> concat (replicate r s) ! i = s ! (i mod length s)"
proof (induction r arbitrary: i)
  case 0
  then show ?case by simp
next
  case (Suc r)
  show ?case
  proof (cases "i < length s")
    case True
    then show ?thesis by (simp add: nth_append)
  next
    case False
    then have "i - length s < r * length s" using Suc.prems by simp
    then have "concat (replicate r s) ! (i - length s) = s ! ((i - length s) mod length s)"
      by (rule Suc.IH)
    moreover have "(i - length s) mod length s = i mod length s"
      using False by (simp add: le_mod_geq)
    ultimately show ?thesis using False by (simp add: nth_append)
  qed
qed

lemma key_stream_covers: "s \<noteq> [] \<Longrightarrow> n < (n div length s + 1) * length s"
proof -
  assume "s \<noteq> []"
  then have "n < length s + length s * (n div length s)"
    by (simp add: dividend_less_times_div)
  then show ?thesis by (simp add: algebra_simps)
qed

lemma map2_key_stream:
  assumes "s \<noteq> []"
  shows "map g (map2 f t (concat (replicate (length t div length s + 1) s)))
         = map (\<lambda>i. g (f (t ! i) (s ! (i mod length s)))) [0..<length t]"
proof (rule nth_equalityI)
  have cov: "length t < (length t div length s + 1) * length s"
    using assms by (rule key_stream_covers)
  then show len: "length (map g (map2 f t (concat (replicate (length t div length s + 1) s))))
      = length (map (\<lambda>i. g (f (t ! i) (s ! (i mod length s)))) [0..<length t])"
    by (simp add: length_concat_replicate)
  fix i
  assume "i < length (map g (map2 f t (concat (replicate (length t div length s + 1) s))))"
  then have i: "i < length t" by simp
  then have "i < (length t div length s + 1) * length s" using cov by simp
  then have "concat (replicate (length t div length s + 1) s) ! i = s ! (i mod length s)"
    by (rule nth_concat_replicate)
  then show "map g (map2 f t (concat (replicate (length t div length s + 1) s))) ! i
      = map (\<lambda>i. g (f (t ! i) (s ! (i mod length s)))) [0..<length t] ! i"
    using i cov by (simp add: length_concat_replicate)
qed

lemma translate_forward_eq:
  assumes "secretkey self \<noteq> []" and "text_buf self = Some t"
  shows "translate True self = Inr (self\<lparr>text_buf := Some
           (map (\<lambda>i. if t ! i + secretkey self ! (i mod length (secretkey self))
                         < int (length (dictionary self))
                      then t ! i + secretkey self ! (i mod length (secretkey self))
                      else t ! i + secretkey self ! (i mod length (secretkey self))
                           - int (length (dictionary self))) [0..<length t])\<rparr>)"
  by (simp only: translate_def assms option.case Let_def if_False if_True
        map2_key_stream [OF assms(1)])

lemma translate_reverse_eq:
  assumes "secretkey self \<noteq> []" and "text_buf self = Some t"
  shows "translate False self = Inr (self\<lparr>text_buf := Some
           (map (\<lambda>i. if t ! i - secretkey self ! (i mod length (secretkey self)) > -1
                      then t ! i - secretkey self ! (i mod length (secretkey self))
                      else t ! i - secretkey self ! (i mod length (secretkey self))
                           + int (length (dictionary self))) [0..<length t])\<rparr>)"
  by (simp only: translate_def assms option.case Let_def if_False if_True
        map2_key_stream [OF assms(1)])

lemma wrap_add_mod:
  fixes a b d :: int
  assumes "0 \<le> a" "a < d" "0 \<le> b" "b < d"
  shows "(if a + b < d then a + b else a + b - d) = (a + b) mod d"
proof (cases "a + b < d")
  case True
  then show ?thesis using assms by (simp add: mod_pos_pos_trivial)
next
  case False
  have "(a + b) mod d = (a + b - d + d) mod d" by simp
  also have "\<dots> = (a + b - d) mod d" by (simp only: mod_add_self2)
  also have "\<dots> = a + b - d" using False assms by (intro mod_pos_pos_trivial) simp_all
  finally show ?thesis using False by simp
qed

lemma wrap_sub_mod:
  fixes a b d :: int
  assumes "0 \<le> a" "a < d" "0 \<le> b" "b < d"
  shows "(if a - b > -1 then a - b else a - b + d) = (a - b) mod d"
proof (cases "a - b > -1")
  case True
  then show ?thesis using assms by (simp add: mod_pos_pos_trivial)
next
  case False
  have "(a - b) mod d = (a - b + d) mod d" by (simp only: mod_add_self2)
  also have "\<dots> = a - b + d" using False assms by (intro mod_pos_pos_trivial) simp_all
  finally show ?thesis using False by simp
qed

lemma getitem_in_range: "0 \<le> x \<Longrightarrow> x < int (length f) \<Longrightarrow> getitem f x = Some (f ! nat x)"
  by (simp add: getitem_def)

lemma render_in_range:
  "\<forall>x\<in>set t. 0 \<le> x \<and> x < int (length f) \<Longrightarrow> render f t = Inr (map (\<lambda>x. f ! nat x) t)"
  by (induction t) (simp_all add: getitem_in_range)

lemma translate_mod:
  assumes key: "secretkey self \<noteq> []"
    and buf: "text_buf self = Some T"
    and T: "in_alphabet self T"
    and K: "in_alphabet self (secretkey self)"
  shows "translate mode self = Inr (self\<lparr>text_buf := Some
           (map (\<lambda>i. (if mode then T ! i + secretkey self ! (i mod length (secretkey self))
                       else T ! i - secretkey self ! (i mod length (secretkey self)))
                      mod int (length (dictionary self))) [0..<length T])\<rparr>)"
proof -
  let ?K = "secretkey self" and ?d = "int (length (dictionary self))"
  have rng: "0 \<le> T ! i \<and> T ! i < ?d \<and> 0 \<le> ?K ! (i mod length ?K) \<and> ?K ! (i mod length ?K) < ?d"
    if "i < length T" for i
  proof -
    have "T ! i \<in> set T" using that by simp
    moreover have "?K ! (i mod length ?K) \<in> set ?K" using key by simp
    ultimately show ?thesis using T K by (simp add: in_alphabet_def)
  qed
  show ?thesis
  proof (cases mode)
    case True
    have "map (\<lambda>i. if T ! i + ?K ! (i mod length ?K) < ?d then T ! i + ?K ! (i mod length ?K)
                    else T ! i + ?K ! (i mod length ?K) - ?d) [0..<length T]
        = map (\<lambda>i. (T ! i + ?K ! (i mod length ?K)) mod ?d) [0..<length T]"
    proof (rule map_cong [OF refl])
      fix i
      assume "i \<in> set [0..<length T]"
      then have "i < length T" by simp
      from rng [OF this]
      show "(if T ! i + ?K ! (i mod length ?K) < ?d then T ! i + ?K ! (i mod length ?K)
             else T ! i + ?K ! (i mod length ?K) - ?d) = (T ! i + ?K ! (i mod length ?K)) mod ?d"
        by (intro wrap_add_mod) simp_all
    qed
    then show ?thesis using True by (simp only: translate_forward_eq [OF key buf] if_True)
  next
    case False
    have "map (\<lambda>i. if T ! i - ?K ! (i mod length ?K) > -1 then T ! i - ?K ! (i mod length ?K)
                    else T ! i - ?K ! (i mod length ?K) + ?d) [0..<length T]
        = map (\<lambda>i. (T ! i - ?K ! (i mod length ?K)) mod ?d) [0..<length T]"
    proof (rule map_cong [OF refl])
      fix i
      assume "i \<in> set [0..<length T]"
      then have "i < length T" by simp
      from rng [OF this]
      show "(if T ! i - ?K ! (i mod length ?K) > -1 then T ! i - ?K ! (i mod length ?K)
             else T ! i - ?K ! (i mod length ?K) + ?d) = (T ! i - ?K ! (i mod length ?K)) mod ?d"
        by (intro wrap_sub_mod) simp_all
    qed
    then show ?thesis using False by (simp only: translate_reverse_eq [OF key buf] if_False)
  qed
qed

text \<open>
  C2: with a non-empty key, on a buffer \<open>T\<close> of alphabet positions, \<open>_translate\<close>
  returns a list of the length of \<open>T\<close> whose \<open>i\<close>-th entry is
  \<open>(T[i] + K[i mod k]) mod D\<close> in forward mode and \<open>(T[i] - K[i mod k]) mod D\<close> in
  reverse mode; and on alphabet \<open>num\<close> with key \<open>137\<close>, \<open>encode\<close> of \<open>582\<close> is \<open>619\<close>
  and \<open>decode\<close> of \<open>619\<close> is \<open>582\<close>.
\<close>

theorem translate_stream_formula:
  assumes key: "secretkey self \<noteq> []"
    and buf: "text_buf self = Some T"
    and T: "in_alphabet self T"
    and K: "in_alphabet self (secretkey self)"
  shows "(\<exists>out. translate True self = Inr (self\<lparr>text_buf := Some out\<rparr>)
            \<and> length out = length T
            \<and> (\<forall>i<length T. out ! i =
                  (T ! i + secretkey self ! (i mod length (secretkey self)))
                    mod int (length (dictionary self))))
       \<and> (\<exists>out. translate False self = Inr (self\<lparr>text_buf := Some out\<rparr>)
            \<and> length out = length T
            \<and> (\<forall>i<length T. out ! i =
                  (T ! i - secretkey self ! (i mod length (secretkey self)))
                    mod int (length (dictionary self))))
       \<and> (case WhyCry_init (str ''num'') (str ''137'') of
             Inl e \<Rightarrow> False
           | Inr c \<Rightarrow>
               dictionary c = str ''0123456789'' \<and> secretkey c = [1, 3, 7]
               \<and> fst (encode sha (str ''582'') True False c) = Inr (str ''619'')
               \<and> fst (decode sha (str ''619'') (snd (encode sha (str ''582'') True False c)))
                   = Inr (str ''582''))"
proof (intro conjI)
  show "\<exists>out. translate True self = Inr (self\<lparr>text_buf := Some out\<rparr>)
            \<and> length out = length T
            \<and> (\<forall>i<length T. out ! i =
                  (T ! i + secretkey self ! (i mod length (secretkey self)))
                    mod int (length (dictionary self)))"
    by (intro exI conjI, rule translate_mod [OF key buf T K]) simp_all
  show "\<exists>out. translate False self = Inr (self\<lparr>text_buf := Some out\<rparr>)
            \<and> length out = length T
            \<and> (\<forall>i<length T. out ! i =
                  (T ! i - secretkey self ! (i mod length (secretkey self)))
                    mod int (length (dictionary self)))"
    by (intro exI conjI, rule translate_mod [OF key buf T K]) simp_all
  show "case WhyCry_init (str ''num'') (str ''137'') of
             Inl e \<Rightarrow> False
           | Inr c \<Rightarrow>
               dictionary c = str ''0123456789'' \<and> secretkey c = [1, 3, 7]
               \<and> fst (encode sha (str ''582'') True False c) = Inr (str ''619'')
               \<and> fst (decode sha (str ''619'') (snd (encode sha (str ''582'') True False c)))
                   = Inr (str ''582'')"
    by (simp add: WhyCry_init_def DIZ_def NUM_def str_def decode_def encode_def translate_def
        output_def getitem_def)
qed

theorem translate_stream_formula_witness:
  "secretkey num137 \<noteq> [] \<and> text_buf num137 = Some [5, 8, 2]
   \<and> in_alphabet num137 [5, 8, 2] \<and> in_alphabet num137 (secretkey num137)
   \<and> (\<exists>out. translate True num137 = Inr (num137\<lparr>text_buf := Some out\<rparr>)
         \<and> length out = length [5, 8, 2 :: int]
         \<and> (\<forall>i<length [5, 8, 2 :: int]. out ! i =
               ([5, 8, 2] ! i + secretkey num137 ! (i mod length (secretkey num137)))
                 mod int (length (dictionary num137))))"
proof -
  have h1: "secretkey num137 \<noteq> []" by (simp add: num137_def)
  have h2: "text_buf num137 = Some [5, 8, 2]" by (simp add: num137_def)
  have h3: "in_alphabet num137 [5, 8, 2]" by (simp add: in_alphabet_def num137_def NUM_def str_def)
  have h4: "in_alphabet num137 (secretkey num137)"
    by (simp add: in_alphabet_def num137_def NUM_def str_def)
  from translate_stream_formula [OF h1 h2 h3 h4, of id, THEN conjunct1] h1 h2 h3 h4
  show ?thesis by (intro conjI)
qed

text \<open>
  C9: with a non-empty key, on a buffer of alphabet positions, every index \<open>_translate\<close>
  produces, in either mode, is again an alphabet position, and \<open>_output\<close> then renders
  the buffer without an index error.
\<close>

theorem translate_stays_in_alphabet:
  assumes key: "secretkey self \<noteq> []"
    and buf: "text_buf self = Some T"
    and T: "in_alphabet self T"
    and K: "in_alphabet self (secretkey self)"
  shows "\<exists>self' out w. translate mode self = Inr self' \<and> text_buf self' = Some out
           \<and> in_alphabet self' out \<and> output self' = Inr w \<and> length w = length out"
proof -
  let ?d = "int (length (dictionary self))"
  let ?out = "map (\<lambda>i. (if mode then T ! i + secretkey self ! (i mod length (secretkey self))
                       else T ! i - secretkey self ! (i mod length (secretkey self)))
                      mod ?d) [0..<length T]"
  let ?self' = "self\<lparr>text_buf := Some ?out\<rparr>"
  have "hd (secretkey self) \<in> set (secretkey self)" using key by simp
  then have d: "0 < ?d" using K unfolding in_alphabet_def by fastforce
  have tr: "translate mode self = Inr ?self'" by (rule translate_mod [OF key buf T K])
  have inr: "in_alphabet ?self' ?out" using d by (auto simp: in_alphabet_def)
  then have "output ?self' = Inr (map (\<lambda>x. dictionary self ! nat x) ?out)"
    by (simp add: output_def in_alphabet_def render_in_range)
  with tr inr show ?thesis by (intro exI [of _ ?self'] exI [of _ ?out]) simp
qed

theorem translate_stays_in_alphabet_witness:
  "secretkey num137 \<noteq> [] \<and> text_buf num137 = Some [5, 8, 2]
   \<and> in_alphabet num137 [5, 8, 2] \<and> in_alphabet num137 (secretkey num137)
   \<and> (\<exists>self' out w. translate False num137 = Inr self' \<and> text_buf self' = Some out
           \<and> in_alphabet self' out \<and> output self' = Inr w \<and> length w = length out)"
proof -
  have h1: "secretkey num137 \<noteq> []" by (simp add: num137_def)
  have h2: "text_buf num137 = Some [5, 8, 2]" by (simp add: num137_def)
  have h3: "in_alphabet num137 [5, 8, 2]" by (simp add: in_alphabet_def num137_def NUM_def str_def)
  have h4: "in_alphabet num137 (secretkey num137)"
    by (simp add: in_alphabet_def num137_def NUM_def str_def)
  from translate_stays_in_alphabet [OF h1 h2 h3 h4, of False] h1 h2 h3 h4
  show ?thesis by blast
qed

section \<open>The length check and the empty text\<close>

text \<open>
  C7: for every text and every target length \<open>L\<close> with \<open>L \<le> len(text) + 2\<close>, \<open>wencode\<close>
  raises (the assertion fails) before it changes anything: the instance, so its buffer
  and its signature, is as it was before the call.
\<close>

theorem wencode_rejects_short_length:
  "lenght \<le> int (length text) + 2 \<Longrightarrow>
     wencode sha text lenght create_signature rnd self = Some (Inl AssertionError, self)"
  by (simp add: wencode_def)

theorem wencode_rejects_short_length_witness:
  "(5::int) \<le> int (length (str ''582'')) + 2
   \<and> wencode id (str ''582'') 5 True [] num137 = Some (Inl AssertionError, num137)"
  using wencode_rejects_short_length [of 5 "str ''582''" id True "[]" num137]
  by (simp add: str_def)

text \<open>
  C10: for every target length \<open>L > 2\<close>, \<open>wencode\<close> of the empty text passes the length
  check and then raises IndexError, when padding reads the first element of the empty
  buffer; it returns no padded string.
\<close>

theorem wencode_empty_text_index_error:
  "2 < lenght \<Longrightarrow>
     wencode sha [] lenght create_signature rnd self
       = Some (Inl IndexError, self\<lparr>text_buf := Some []\<rparr>)"
  by (simp add: wencode_def wide_def wide_pad_def)

theorem wencode_empty_text_index_error_witness:
  "(2::int) < 3 \<and> wencode id [] 3 False [] num137 = Some (Inl IndexError, num137\<lparr>text_buf := Some []\<rparr>)"
  using wencode_empty_text_index_error [of 3 id False "[]" num137] by simp

section \<open>One unpadding pass\<close>

lemma from_next:
  "(\<forall>y::nat. x0 \<le> y \<and> Q y \<longrightarrow> P y) \<longleftrightarrow> ((Q x0 \<longrightarrow> P x0) \<and> (\<forall>y. x0 + 1 \<le> y \<and> Q y \<longrightarrow> P y))"
proof -
  have "y = x0 \<or> x0 + 1 \<le> y" if "x0 \<le> y" for y using that by arith
  moreover have "x0 \<le> y" if "x0 + 1 \<le> y" for y using that by arith
  ultimately show ?thesis by blast
qed

lemma scan_from_Some_iff:
  "scan_from t x0 = Some x \<longleftrightarrow>
     x0 \<le> x \<and> x + 1 < length t \<and> t ! x = t ! (x + 1)
     \<and> (\<forall>y. x0 \<le> y \<and> y < x \<longrightarrow> t ! y \<noteq> t ! (y + 1))"
proof (induction t x0 rule: scan_from.induct)
  case (1 t x0)
  show ?case
  proof (cases "x0 + 1 < length t")
    case False
    then show ?thesis by (subst scan_from.simps) auto
  next
    case inb: True
    show ?thesis
    proof (cases "t ! x0 = t ! (x0 + 1)")
      case True
      have "scan_from t x0 = Some x0" using inb True by (subst scan_from.simps) simp
      moreover have "x0 = x"
        if "x0 \<le> x" "\<forall>y. x0 \<le> y \<and> y < x \<longrightarrow> t ! y \<noteq> t ! (y + 1)"
      proof (rule ccontr)
        assume "x0 \<noteq> x"
        then have "x0 < x" using that(1) by simp
        then show False using that(2) True by blast
      qed
      ultimately show ?thesis using inb True by auto
    next
      case False
      have eq: "scan_from t x0 = scan_from t (x0 + 1)"
        using inb False by (subst scan_from.simps) simp
      have "(x0 \<le> x \<and> x + 1 < length t \<and> t ! x = t ! (x + 1)
               \<and> (\<forall>y. x0 \<le> y \<and> y < x \<longrightarrow> t ! y \<noteq> t ! (y + 1)))
            \<longleftrightarrow> (x0 + 1 \<le> x \<and> x + 1 < length t \<and> t ! x = t ! (x + 1)
               \<and> (\<forall>y. x0 + 1 \<le> y \<and> y < x \<longrightarrow> t ! y \<noteq> t ! (y + 1)))"
        (is "?A \<longleftrightarrow> ?B")
      proof
        assume a: ?A
        then have "x0 \<noteq> x" using False by auto
        then have "x0 + 1 \<le> x" using a by simp
        then show ?B using a by simp
      next
        assume b: ?B
        then have "x0 \<le> x" by simp
        moreover have "\<forall>y. x0 \<le> y \<and> y < x \<longrightarrow> t ! y \<noteq> t ! (y + 1)"
          using b False by (subst from_next) simp
        ultimately show ?A using b by simp
      qed
      then show ?thesis using "1.IH" [OF inb False] eq by simp
    qed
  qed
qed

lemma scan_from_None_iff:
  "scan_from t x0 = None \<longleftrightarrow> (\<forall>y. x0 \<le> y \<and> y + 1 < length t \<longrightarrow> t ! y \<noteq> t ! (y + 1))"
proof (induction t x0 rule: scan_from.induct)
  case (1 t x0)
  show ?case
  proof (cases "x0 + 1 < length t")
    case False
    then show ?thesis by (subst scan_from.simps) auto
  next
    case inb: True
    show ?thesis
    proof (cases "t ! x0 = t ! (x0 + 1)")
      case True
      have "scan_from t x0 = Some x0" using inb True by (subst scan_from.simps) simp
      then show ?thesis using inb True by auto
    next
      case False
      have "scan_from t x0 = scan_from t (x0 + 1)" using inb False by (subst scan_from.simps) simp
      then show ?thesis using "1.IH" [OF inb False] False
        by (subst from_next) simp
    qed
  qed
qed

text \<open>
  C4, as stated, fails: on \<open>[1, 1, 2]\<close> the scan stops at \<open>x = 0\<close> and the pass leaves
  \<open>[2, 1]\<close>, the reversal of the slice from index \<open>x + 1\<close>, not of the slice from
  index \<open>x + 2\<close>.
\<close>

theorem unwide_pass_discards_both_counterexample:
  "scan_from [1, 1, 2] 0 = Some 0
   \<and> unwide_pass [1, 1, 2] = Some [2, 1]
   \<and> unwide_pass [1, 1, 2] \<noteq> Some (rev (drop (0 + 2) [1, 1, 2]))"
  by (simp add: unwide_pass_def scan_from.simps)

text \<open>
  C4, amended: when \<open>x\<close> is the first index with \<open>t[x] = t[x + 1]\<close>, the scan stops at
  \<open>x\<close> and the pass discards everything up to and including the first element of that
  pair: it keeps the slice from index \<open>x + 1\<close>, whose first element is the second of the
  pair, and reverses it.
\<close>

theorem unwide_pass_keeps_second:
  assumes "x + 1 < length t" and "t ! x = t ! (x + 1)"
    and "\<forall>y<x. t ! y \<noteq> t ! (y + 1)"
  shows "scan_from t 0 = Some x \<and> unwide_pass t = Some (rev (drop (x + 1) t))
         \<and> length (rev (drop (x + 1) t)) = length t - (x + 1)
         \<and> last (rev (drop (x + 1) t)) = t ! (x + 1)"
proof -
  have s: "scan_from t 0 = Some x" using assms by (simp add: scan_from_Some_iff)
  moreover have "hd (drop (x + 1) t) = t ! (x + 1)" using assms(1) by (simp add: hd_drop_conv_nth)
  moreover have "drop (x + 1) t \<noteq> []" using assms(1) by simp
  ultimately show ?thesis by (simp add: unwide_pass_def last_rev)
qed

theorem unwide_pass_keeps_second_witness:
  "(0::nat) + 1 < length [1, 1, 2 :: int] \<and> [1, 1, 2 :: int] ! 0 = [1, 1, 2] ! (0 + 1)
   \<and> scan_from [1, 1, 2] 0 = Some 0 \<and> unwide_pass [1, 1, 2] = Some (rev (drop (0 + 1) [1, 1, 2]))"
  using unwide_pass_keeps_second [of 0 "[1, 1, 2]"] by simp

section \<open>What the private methods leave alone\<close>

lemma translate_frame:
  "translate mode self = Inr self' \<Longrightarrow>
     signature self' = signature self \<and> dictionary self' = dictionary self
     \<and> secretkey self' = secretkey self"
  by (auto simp: translate_def Let_def split: option.splits if_splits)

lemma unwide_frame:
  "unwide self = Inr self' \<Longrightarrow>
     signature self' = signature self \<and> dictionary self' = dictionary self
     \<and> secretkey self' = secretkey self"
  by (auto simp: unwide_def split: option.splits)

lemma wide_pad_frame:
  "wide_pad lenght rnd self = Some (Inr self') \<Longrightarrow>
     signature self' = signature self \<and> dictionary self' = dictionary self
     \<and> secretkey self' = secretkey self"
  by (auto simp: wide_pad_def Let_def split: option.splits if_splits list.splits)

lemma wide_frame:
  "wide mode lenght rnd self = Some (Inr self') \<Longrightarrow>
     signature self' = signature self \<and> dictionary self' = dictionary self
     \<and> secretkey self' = secretkey self"
  by (auto simp: wide_def dest: wide_pad_frame unwide_frame split: if_splits)

lemma encode_unsigned_frame:
  "signature (snd (encode sha text mode False self)) = signature self"
  by (auto simp: encode_def Let_def dest: translate_frame split: sum.splits)

lemma wdecode_frame: "signature (snd (wdecode text self)) = signature self"
  by (auto simp: wdecode_def Let_def dest!: translate_frame unwide_frame split: sum.splits)

lemma verify_frame: "snd (verify sha sig self) = self"
  by (simp add: verify_def split: sum.splits)

lemma encode_signed:
  "signature (snd (encode sha text mode True self)) =
     (case build_input (dictionary self) text of
        Inl e \<Rightarrow> signature self
      | Inr t \<Rightarrow>
          (case translate mode (self\<lparr>text_buf := Some t\<rparr>) of
             Inl e \<Rightarrow> signature self
           | Inr s \<Rightarrow> Some (sha text)))"
  by (auto simp: encode_def Let_def split: sum.splits)

lemma wencode_unsigned_frame:
  "wencode sha text lenght False rnd self = Some r \<Longrightarrow> signature (snd r) = signature self"
  by (auto simp: wencode_def Let_def dest!: translate_frame wide_frame
      split: sum.splits option.splits if_splits)

lemma wencode_signed:
  "wencode sha text lenght True rnd self = Some r \<Longrightarrow>
     signature (snd r) = (case fst r of Inl e \<Rightarrow> signature (snd r) | Inr w \<Rightarrow> Some (sha text))
     \<and> (signature (snd r) = signature self \<or> signature (snd r) = Some (sha text))"
  by (auto simp: wencode_def Let_def dest!: translate_frame wide_frame
      split: sum.splits option.splits if_splits)

text \<open>
  C8: the signature is \<open>None\<close> after construction; \<open>decode\<close>, \<open>wdecode\<close>, \<open>verify\<close>, and
  \<open>encode\<close> and \<open>wencode\<close> without signing leave it as it was; \<open>encode\<close> and \<open>wencode\<close>
  with signing leave it as it was or set it to the digest of the plaintext, and set it to
  that digest whenever they return a string.
\<close>

theorem signature_frame:
  "(WhyCry_init name key = Inr c \<longrightarrow> signature c = None)
   \<and> signature (snd (decode sha text self)) = signature self
   \<and> signature (snd (wdecode text self)) = signature self
   \<and> signature (snd (verify sha sig self)) = signature self
   \<and> signature (snd (encode sha text mode False self)) = signature self
   \<and> (wencode sha text lenght False rnd self = Some r \<longrightarrow> signature (snd r) = signature self)
   \<and> (signature (snd (encode sha text mode True self)) = signature self
        \<or> signature (snd (encode sha text mode True self)) = Some (sha text))
   \<and> (fst (encode sha text mode True self) = Inr w \<longrightarrow>
         signature (snd (encode sha text mode True self)) = Some (sha text))
   \<and> (wencode sha text lenght True rnd self = Some r' \<longrightarrow>
         signature (snd r') = signature self \<or> signature (snd r') = Some (sha text))
   \<and> (wencode sha text lenght True rnd self = Some (Inr w', self') \<longrightarrow>
         signature self' = Some (sha text))"
proof (intro conjI impI)
  assume "WhyCry_init name key = Inr c"
  then show "signature c = None"
    by (auto simp: WhyCry_init_def split: option.splits sum.splits)
next
  show "signature (snd (decode sha text self)) = signature self"
    unfolding decode_def by (rule encode_unsigned_frame)
next
  show "signature (snd (wdecode text self)) = signature self" by (rule wdecode_frame)
next
  show "signature (snd (verify sha sig self)) = signature self" by (simp add: verify_frame)
next
  show "signature (snd (encode sha text mode False self)) = signature self"
    by (rule encode_unsigned_frame)
next
  assume "wencode sha text lenght False rnd self = Some r"
  then show "signature (snd r) = signature self" by (rule wencode_unsigned_frame)
next
  show "signature (snd (encode sha text mode True self)) = signature self
        \<or> signature (snd (encode sha text mode True self)) = Some (sha text)"
    by (simp add: encode_signed split: sum.splits)
next
  assume "fst (encode sha text mode True self) = Inr w"
  then show "signature (snd (encode sha text mode True self)) = Some (sha text)"
    by (auto simp: encode_def Let_def split: sum.splits)
next
  assume "wencode sha text lenght True rnd self = Some r'"
  then show "signature (snd r') = signature self \<or> signature (snd r') = Some (sha text)"
    using wencode_signed by blast
next
  assume "wencode sha text lenght True rnd self = Some (Inr w', self')"
  from wencode_signed [OF this] show "signature self' = Some (sha text)" by simp
qed

theorem signature_frame_witness:
  "signature (snd (encode id (str ''582'') True True num137)) = Some (str ''582'')
   \<and> signature (snd (decode id (str ''619'') (snd (encode id (str ''582'') True True num137))))
       = Some (str ''582'')"
proof -
  let ?s = "snd (encode id (str ''582'') True True num137)"
  have ok: "fst (encode id (str ''582'') True True num137) = Inr (str ''619'')"
    by (simp add: encode_def num137_def NUM_def str_def translate_def output_def getitem_def)
  have a: "signature ?s = Some (str ''582'')"
    using signature_frame [of "[]" "[]" num137 id "str ''582''" num137 "[]" True 0 "[]"
        "(Inl KeyError, num137)" "str ''619''"] ok
    by simp
  have b: "signature (snd (decode id (str ''619'') ?s)) = signature ?s"
    using signature_frame [of "[]" "[]" num137 id "str ''619''" ?s "[]" True 0 "[]"
        "(Inl KeyError, num137)" "[]"]
    by blast
  from a b show ?thesis by simp
qed

section \<open>Characters and indices\<close>

lemma index_of_member:
  "c \<in> set d \<Longrightarrow> \<exists>i. index_of d c = Some i \<and> i < length d \<and> d ! i = c"
  by (induction d) auto

lemma index_of_nth_distinct:
  "distinct d \<Longrightarrow> i < length d \<Longrightarrow> index_of d (d ! i) = Some i"
proof (induction d arbitrary: i)
  case Nil
  then show ?case by simp
next
  case (Cons x xs)
  show ?case
  proof (cases i)
    case 0
    then show ?thesis by simp
  next
    case (Suc j)
    then have "xs ! j \<in> set xs" using Cons.prems by simp
    then have "x \<noteq> xs ! j" using Cons.prems by auto
    then show ?thesis using Suc Cons by simp
  qed
qed

lemma build_input_over_alphabet:
  "set text \<subseteq> set d \<Longrightarrow>
     \<exists>t. build_input d text = Inr t \<and> length t = length text
         \<and> (\<forall>x\<in>set t. 0 \<le> x \<and> x < int (length d))
         \<and> map (\<lambda>x. d ! nat x) t = text"
proof (induction "text")
  case Nil
  then show ?case by simp
next
  case (Cons c cs)
  then obtain t where t: "build_input d cs = Inr t" "length t = length cs"
    "\<forall>x\<in>set t. 0 \<le> x \<and> x < int (length d)" "map (\<lambda>x. d ! nat x) t = cs"
    by auto
  from Cons.prems obtain i where i: "index_of d c = Some i" "i < length d" "d ! i = c"
    using index_of_member [of c d] by auto
  show ?case
    by (rule exI [of _ "int i # t"]) (use t i in simp)
qed

lemma build_input_render:
  "distinct d \<Longrightarrow> \<forall>x\<in>set t. 0 \<le> x \<and> x < int (length d) \<Longrightarrow>
     build_input d (map (\<lambda>x. d ! nat x) t) = Inr t"
proof (induction t)
  case Nil
  then show ?case by simp
next
  case (Cons a t)
  then have a: "0 \<le> a" "a < int (length d)" by simp_all
  then have "nat a < length d" by arith
  then have "index_of d (d ! nat a) = Some (nat a)"
    using Cons.prems(1) by (simp add: index_of_nth_distinct)
  then show ?case using Cons a by simp
qed

lemma translate_result:
  assumes key: "secretkey self \<noteq> []"
    and buf: "text_buf self = Some T"
    and T: "in_alphabet self T"
    and K: "in_alphabet self (secretkey self)"
  shows "\<exists>out. translate mode self = Inr (self\<lparr>text_buf := Some out\<rparr>)
           \<and> length out = length T \<and> in_alphabet self out"
proof -
  have "hd (secretkey self) \<in> set (secretkey self)" using key by simp
  then have d: "0 < int (length (dictionary self))"
    using K unfolding in_alphabet_def by fastforce
  show ?thesis
    by (intro exI conjI, rule translate_mod [OF key buf T K]) (use d in \<open>auto simp: in_alphabet_def\<close>)
qed

section \<open>Unpadding never leaves the alphabet\<close>

lemma unwide_pass_subset: "unwide_pass t = Some t' \<Longrightarrow> set t' \<subseteq> set t"
  by (auto simp: unwide_pass_def split: option.splits dest: in_set_dropD)

lemma unwide_loop_subset: "unwide_loop m t = Some t' \<Longrightarrow> set t' \<subseteq> set t"
proof (induction m arbitrary: t)
  case 0
  then show ?case by simp
next
  case (Suc m)
  then show ?case
    by (auto split: option.splits dest!: unwide_pass_subset)
qed

lemma unwide_loop_2:
  "unwide_loop 2 t =
     (case unwide_pass t of None \<Rightarrow> None | Some t1 \<Rightarrow> unwide_pass t1)"
  by (simp add: numeral_2_eq_2 split: option.splits)

lemma index_of_None: "index_of d c = None \<longleftrightarrow> c \<notin> set d"
  by (induction d) auto

lemma build_input_foreign:
  "\<not> set cs \<subseteq> set d \<Longrightarrow> build_input d cs = Inl ValueError"
proof (induction cs)
  case Nil
  then show ?case by simp
next
  case (Cons c cs)
  show ?case
  proof (cases "c \<in> set d")
    case False
    then have "index_of d c = None" by (simp add: index_of_None)
    then show ?thesis by simp
  next
    case True
    then have "\<not> set cs \<subseteq> set d" using Cons.prems by simp
    then have "build_input d cs = Inl ValueError" by (rule Cons.IH)
    then show ?thesis by (simp split: option.splits)
  qed
qed

lemma wdecode_foreign:
  "\<not> set cs \<subseteq> set (dictionary self) \<Longrightarrow> wdecode cs self = (Inl ValueError, self)"
  by (simp add: wdecode_def build_input_foreign)

lemma wdecode_over_alphabet:
  assumes key: "secretkey self \<noteq> []"
    and K: "in_alphabet self (secretkey self)"
    and chars: "set text \<subseteq> set (dictionary self)"
  shows "\<exists>t b w. build_input (dictionary self) text = Inr t
           \<and> translate False (self\<lparr>text_buf := Some t\<rparr>) = Inr (self\<lparr>text_buf := Some b\<rparr>)
           \<and> fst (wdecode text self) = Inr w
           \<and> ((scan_from b 0 = None
                 \<or> (\<exists>b'. unwide_pass b = Some b' \<and> scan_from b' 0 = None)) \<longrightarrow> w = [])"
proof -
  let ?d = "dictionary self"
  from build_input_over_alphabet [OF chars]
  obtain t where t: "build_input ?d text = Inr t" "\<forall>x\<in>set t. 0 \<le> x \<and> x < int (length ?d)"
    by blast
  let ?s1 = "self\<lparr>text_buf := Some t\<rparr>"
  have T1: "in_alphabet ?s1 t" and K1: "in_alphabet ?s1 (secretkey ?s1)"
    and key1: "secretkey ?s1 \<noteq> []" and buf1: "text_buf ?s1 = Some t"
    using t K key by (simp_all add: in_alphabet_def)
  from translate_result [OF key1 buf1 T1 K1, of False]
  obtain b where tr: "translate False ?s1 = Inr (?s1\<lparr>text_buf := Some b\<rparr>)"
    and inb: "in_alphabet ?s1 b"
    by blast
  define s2 where "s2 = self\<lparr>text_buf := Some b\<rparr>"
  have s2: "translate False ?s1 = Inr s2" "text_buf s2 = Some b"
    and s2eq: "s2 = self\<lparr>text_buf := Some b\<rparr>"
    using tr by (simp_all add: s2_def)
  have b: "\<forall>x\<in>set b. 0 \<le> x \<and> x < int (length ?d)"
    using inb by (simp add: in_alphabet_def)
  show ?thesis
  proof (cases "unwide_loop 2 b")
    case None
    then have "unwide s2 = Inr (s2\<lparr>text_buf := Some []\<rparr>)" using s2(2) by (simp add: unwide_def)
    then have "fst (wdecode text self) = Inr []"
      using t(1) s2(1) by (simp add: wdecode_def output_def)
    then show ?thesis using t(1) s2(1) s2eq by auto
  next
    case (Some t')
    then have sub: "set t' \<subseteq> set b" by (rule unwide_loop_subset)
    have "unwide s2 = Inr (s2\<lparr>text_buf := Some t'\<rparr>)" using s2(2) Some by (simp add: unwide_def)
    moreover have "render ?d t' = Inr (map (\<lambda>x. ?d ! nat x) t')"
      using sub b by (intro render_in_range) blast
    ultimately have w: "fst (wdecode text self) = Inr (map (\<lambda>x. ?d ! nat x) t')"
      using t(1) s2(1) s2eq by (simp add: wdecode_def output_def)
    have "\<not> (scan_from b 0 = None \<or> (\<exists>b'. unwide_pass b = Some b' \<and> scan_from b' 0 = None))"
      using Some by (auto simp: unwide_loop_2 unwide_pass_def split: option.splits)
    then show ?thesis using t(1) s2(1) s2eq w by blast
  qed
qed

text \<open>
  C6, as stated, fails: \<open>wdecode\<close> raises on an input with a character outside the
  alphabet (here the letter a, on the alphabet \<open>num\<close>): \<open>str.index\<close> raises ValueError.
\<close>

theorem wdecode_never_raises_counterexample:
  "wdecode (str ''a'') num137 = (Inl ValueError, num137)"
  by (simp add: wdecode_def num137_def NUM_def str_def)

text \<open>
  C6, amended: on an instance with a non-empty key of alphabet positions, for every input
  string whose characters all lie in the alphabet, \<open>wdecode\<close> raises nothing and returns a
  string, and whenever a scan of \<open>unwide\<close>, in the first or in the second pass, finds no
  adjacent equal pair in the buffer, that string is the empty string; for every input
  string with a character outside the alphabet, \<open>wdecode\<close> raises ValueError and leaves
  the instance as it was.
\<close>

theorem wdecode_fail_soft:
  assumes key: "secretkey self \<noteq> []"
    and K: "in_alphabet self (secretkey self)"
  shows "(set cs \<subseteq> set (dictionary self) \<longrightarrow>
            (\<exists>t b w. build_input (dictionary self) cs = Inr t
               \<and> translate False (self\<lparr>text_buf := Some t\<rparr>) = Inr (self\<lparr>text_buf := Some b\<rparr>)
               \<and> fst (wdecode cs self) = Inr w
               \<and> ((scan_from b 0 = None
                     \<or> (\<exists>b'. unwide_pass b = Some b' \<and> scan_from b' 0 = None)) \<longrightarrow> w = [])))
       \<and> (\<not> set cs \<subseteq> set (dictionary self) \<longrightarrow> wdecode cs self = (Inl ValueError, self))"
  using wdecode_over_alphabet [OF key K] wdecode_foreign by blast

theorem wdecode_fail_soft_witness:
  "secretkey num137 \<noteq> [] \<and> in_alphabet num137 (secretkey num137)
   \<and> set (str ''582'') \<subseteq> set (dictionary num137)
   \<and> scan_from [4, 5, 5] 0 = Some 1 \<and> unwide_pass [4, 5, 5] = Some [5] \<and> scan_from [5] 0 = None
   \<and> (\<exists>t b w. build_input (dictionary num137) (str ''582'') = Inr t
           \<and> translate False (num137\<lparr>text_buf := Some t\<rparr>) = Inr (num137\<lparr>text_buf := Some b\<rparr>)
           \<and> fst (wdecode (str ''582'') num137) = Inr w
           \<and> ((scan_from b 0 = None
                 \<or> (\<exists>b'. unwide_pass b = Some b' \<and> scan_from b' 0 = None)) \<longrightarrow> w = []))
   \<and> \<not> set (str ''5a2'') \<subseteq> set (dictionary num137)
   \<and> wdecode (str ''5a2'') num137 = (Inl ValueError, num137)"
proof -
  have h1: "secretkey num137 \<noteq> []" by (simp add: num137_def)
  have h2: "in_alphabet num137 (secretkey num137)"
    by (simp add: in_alphabet_def num137_def NUM_def str_def)
  have h3: "set (str ''582'') \<subseteq> set (dictionary num137)" by (simp add: num137_def NUM_def str_def)
  have h4: "\<not> set (str ''5a2'') \<subseteq> set (dictionary num137)"
    by (simp add: num137_def NUM_def str_def)
  have sc: "scan_from [4, 5, 5] 0 = Some 1 \<and> unwide_pass [4, 5, 5] = Some [5] \<and> scan_from [5] 0 = None"
    by (simp add: unwide_pass_def scan_from.simps)
  from wdecode_fail_soft [OF h1 h2, of "str ''582''"] h3
  have a: "\<exists>t b w. build_input (dictionary num137) (str ''582'') = Inr t
           \<and> translate False (num137\<lparr>text_buf := Some t\<rparr>) = Inr (num137\<lparr>text_buf := Some b\<rparr>)
           \<and> fst (wdecode (str ''582'') num137) = Inr w
           \<and> ((scan_from b 0 = None
                 \<or> (\<exists>b'. unwide_pass b = Some b' \<and> scan_from b' 0 = None)) \<longrightarrow> w = [])"
    by blast
  from wdecode_fail_soft [OF h1 h2, of "str ''5a2''"] h4
  have b: "wdecode (str ''5a2'') num137 = (Inl ValueError, num137)" by blast
  from h1 h2 h3 sc a h4 b show ?thesis by (intro conjI) simp_all
qed

section \<open>The registered alphabets\<close>

lemma str_alnum: "str ''0123456789abcdefghijklmnopqrstuvwxyz'' = [48..<58] @ [97..<123]"
  by (simp add: str_def)

lemma str_upper: "str ''ABCDEFGHIJKLMNOPQRSTUVWXYZ'' = [65..<91]"
  by (simp add: str_def)

lemma ALPHANUM_ranges: "ALPHANUM = [48..<58] @ [97..<123] @ [65..<91]"
proof -
  have "ALPHANUM = str ''0123456789abcdefghijklmnopqrstuvwxyz'' @ str ''ABCDEFGHIJKLMNOPQRSTUVWXYZ''"
    by (simp add: ALPHANUM_def HEX_def NUM_def str_def)
  then show ?thesis by (simp only: str_alnum str_upper append_assoc)
qed

lemma distinct_irregular:
  "distinct [127, 8364, 129, 8218, 402, 8222, 8230, 8224, 8225, 710, 8240, 352, 8249, 338, 141,
      381, 143, 144, 8216, 8217, 8220, 8221, 8226, 8211, 8212, 732, 8482, 353, 8250, 339,
      157, 382, 376 :: nat]"
  by simp

lemma distinct_MAIL: "distinct MAIL"
  unfolding MAIL_def str_def by simp

lemma ASCIIEXT_ranges:
  "ASCIIEXT = [32] @ ([48..<58] @ [97..<123] @ [65..<91])
     @ [33..<48] @ [58..<65] @ [91..<97] @ [123..<127]
     @ [127, 8364, 129, 8218, 402, 8222, 8230, 8224, 8225, 710, 8240, 352, 8249, 338, 141,
      381, 143, 144, 8216, 8217, 8220, 8221, 8226, 8211, 8212, 732, 8482, 353, 8250, 339,
      157, 382, 376]
     @ [161..<173] @ [174..<256]"
  by (simp only: ASCIIEXT_def ASCIIEXT_NOSPACE_def ASCII_NOSPACE_def ALPHANUM_ranges SPACE_def
      append_assoc)

lemma distinct_ASCIIEXT: "distinct ASCIIEXT"
  unfolding ASCIIEXT_ranges by simp

lemma distinct_registered:
  "distinct NUM" "distinct HEX" "distinct ALPHANUM" "distinct ASCII_NOSPACE" "distinct ASCII"
  "distinct ASCIIEXT_NOSPACE"
proof -
  have a: "distinct (SPACE @ ASCIIEXT_NOSPACE)" using distinct_ASCIIEXT by (simp only: ASCIIEXT_def)
  then show b: "distinct ASCIIEXT_NOSPACE" by simp
  then show c: "distinct ASCII_NOSPACE" by (simp add: ASCIIEXT_NOSPACE_def)
  then show d: "distinct ALPHANUM" by (simp add: ASCII_NOSPACE_def)
  then show e: "distinct HEX" by (simp add: ALPHANUM_def)
  then show "distinct NUM" by (simp add: HEX_def)
  have "set SPACE \<inter> set ASCII_NOSPACE = {}" using a by (auto simp: ASCIIEXT_NOSPACE_def)
  then show "distinct ASCII" using c by (simp add: ASCII_def SPACE_def)
qed

lemma DIZ_values:
  "DIZ name = Some d \<Longrightarrow>
     d = NUM \<or> d = HEX \<or> d = ALPHANUM \<or> d = ASCII_NOSPACE \<or> d = ASCII
     \<or> d = ASCIIEXT_NOSPACE \<or> d = ASCIIEXT \<or> d = MAIL"
  by (auto simp: DIZ_def split: if_splits)

lemma DIZ_distinct: "DIZ name = Some d \<Longrightarrow> distinct d"
  using distinct_registered distinct_ASCIIEXT distinct_MAIL by (auto dest!: DIZ_values)

section \<open>Encoding and decoding\<close>

lemma translate_round_trip:
  assumes key: "secretkey self \<noteq> []"
    and buf: "text_buf self = Some T"
    and T: "in_alphabet self T"
    and K: "in_alphabet self (secretkey self)"
    and same: "dictionary self' = dictionary self" "secretkey self' = secretkey self"
  shows "\<exists>out. translate True self = Inr (self\<lparr>text_buf := Some out\<rparr>)
           \<and> length out = length T \<and> in_alphabet self out
           \<and> translate False (self'\<lparr>text_buf := Some out\<rparr>) = Inr (self'\<lparr>text_buf := Some T\<rparr>)"
proof -
  let ?K = "secretkey self" and ?d = "int (length (dictionary self))"
  let ?out = "map (\<lambda>i. (T ! i + ?K ! (i mod length ?K)) mod ?d) [0..<length T]"
  let ?s = "self'\<lparr>text_buf := Some ?out\<rparr>"
  have "hd ?K \<in> set ?K" using key by simp
  then have d: "0 < ?d" using K unfolding in_alphabet_def by fastforce
  have fw: "translate True self = Inr (self\<lparr>text_buf := Some ?out\<rparr>)"
    using translate_mod [OF key buf T K, of True] by simp
  have out: "in_alphabet self ?out" using d by (auto simp: in_alphabet_def)
  have key': "secretkey ?s \<noteq> []" and buf': "text_buf ?s = Some ?out"
    and out': "in_alphabet ?s ?out" and K': "in_alphabet ?s (secretkey ?s)"
    using key out K same by (simp_all add: in_alphabet_def)
  have undo: "map (\<lambda>i. (?out ! i - ?K ! (i mod length ?K)) mod ?d) [0..<length ?out] = T"
  proof (rule nth_equalityI)
    show "length (map (\<lambda>i. (?out ! i - ?K ! (i mod length ?K)) mod ?d) [0..<length ?out])
          = length T" by simp
    fix i
    assume "i < length (map (\<lambda>i. (?out ! i - ?K ! (i mod length ?K)) mod ?d) [0..<length ?out])"
    then have i: "i < length T" by simp
    then have "T ! i \<in> set T" by simp
    then have r: "0 \<le> T ! i" "T ! i < ?d" using T by (simp_all add: in_alphabet_def)
    have "((T ! i + ?K ! (i mod length ?K)) mod ?d - ?K ! (i mod length ?K)) mod ?d
          = (T ! i + ?K ! (i mod length ?K) - ?K ! (i mod length ?K)) mod ?d"
      by (rule mod_diff_left_eq)
    also have "\<dots> = T ! i" using r by (simp add: mod_pos_pos_trivial)
    finally show "map (\<lambda>i. (?out ! i - ?K ! (i mod length ?K)) mod ?d) [0..<length ?out] ! i
                  = T ! i"
      using i by simp
  qed
  have "translate False ?s = Inr (?s\<lparr>text_buf := Some T\<rparr>)"
    using translate_mod [OF key' buf' out' K', of False] undo same by simp
  then have "translate False ?s = Inr (self'\<lparr>text_buf := Some T\<rparr>)" by simp
  with fw out show ?thesis by (intro exI [of _ ?out]) simp
qed

text \<open>What \<open>__init__\<close> gives on a registered alphabet and a key over it.\<close>

lemma init_registered:
  assumes "DIZ name = Some d" and "set key \<subseteq> set d"
  shows "\<exists>k. WhyCry_init name key
             = Inr \<lparr>dictionary = d, secretkey = k, text_buf = None, signature = None\<rparr>
           \<and> length k = length key \<and> (\<forall>x\<in>set k. 0 \<le> x \<and> x < int (length d))"
  using build_input_over_alphabet [OF assms(2)] assms(1) by (auto simp: WhyCry_init_def)

text \<open>
  C3: for every registered alphabet, every non-empty key over it and every text \<open>T\<close> over it
  (the empty text too), the instance is constructed, \<open>encode\<close> returns a string, and
  \<open>decode\<close> of that string on the same instance returns \<open>T\<close>.
\<close>

theorem encode_decode_round_trip:
  assumes reg: "DIZ name = Some d"
    and key: "key \<noteq> []" "set key \<subseteq> set d"
    and T: "set T \<subseteq> set d"
  shows "\<exists>c E c'. WhyCry_init name key = Inr c
           \<and> encode sha T True create_signature c = (Inr E, c')
           \<and> length E = length T
           \<and> fst (decode sha E c') = Inr T"
proof -
  from init_registered [OF reg key(2)] obtain k where
    c: "WhyCry_init name key
          = Inr \<lparr>dictionary = d, secretkey = k, text_buf = None, signature = None\<rparr>"
    and k: "length k = length key" "\<forall>x\<in>set k. 0 \<le> x \<and> x < int (length d)"
    by blast
  let ?c = "\<lparr>dictionary = d, secretkey = k, text_buf = None, signature = None\<rparr>"
  from build_input_over_alphabet [OF T] obtain t where
    t: "build_input d T = Inr t" "length t = length T"
       "\<forall>x\<in>set t. 0 \<le> x \<and> x < int (length d)" "map (\<lambda>x. d ! nat x) t = T"
    by blast
  let ?s1 = "?c\<lparr>text_buf := Some t\<rparr>"
  let ?sig = "if create_signature then Some (sha T) else None"
  let ?c' = "\<lambda>out. \<lparr>dictionary = d, secretkey = k, text_buf = Some out, signature = ?sig\<rparr>"
  have key1: "secretkey ?s1 \<noteq> []" using k(1) key(1) by auto
  have buf1: "text_buf ?s1 = Some t" by simp
  have T1: "in_alphabet ?s1 t" and K1: "in_alphabet ?s1 (secretkey ?s1)"
    using t(3) k(2) by (simp_all add: in_alphabet_def)
  from translate_round_trip [OF key1 buf1 T1 K1, of "?c' t"]
  obtain out where fw: "translate True ?s1 = Inr (?s1\<lparr>text_buf := Some out\<rparr>)"
    and len: "length out = length t" and out: "in_alphabet ?s1 out"
    and bw: "translate False ((?c' t)\<lparr>text_buf := Some out\<rparr>) = Inr ((?c' t)\<lparr>text_buf := Some t\<rparr>)"
    by auto
  have rng: "\<forall>x\<in>set out. 0 \<le> x \<and> x < int (length d)" using out by (simp add: in_alphabet_def)
  let ?E = "map (\<lambda>x. d ! nat x) out"
  have enc: "encode sha T True create_signature ?c = (Inr ?E, ?c' out)"
    using t(1) fw rng by (simp add: encode_def output_def render_in_range)
  have "build_input d ?E = Inr out" using DIZ_distinct [OF reg] rng by (rule build_input_render)
  moreover have "render d t = Inr T" using t(3,4) by (simp add: render_in_range)
  ultimately have dec: "fst (decode sha ?E (?c' out)) = Inr T"
    using bw by (simp add: decode_def encode_def output_def)
  from c enc dec len t(2) show ?thesis by (intro exI [of _ ?c] exI [of _ ?E] exI [of _ "?c' out"]) simp
qed

theorem encode_decode_round_trip_witness:
  "DIZ (str ''num'') = Some NUM \<and> str ''137'' \<noteq> [] \<and> set (str ''137'') \<subseteq> set NUM
   \<and> set (str ''582'') \<subseteq> set NUM
   \<and> (\<exists>c E c'. WhyCry_init (str ''num'') (str ''137'') = Inr c
           \<and> encode id (str ''582'') True False c = (Inr E, c')
           \<and> length E = length (str ''582'')
           \<and> fst (decode id E c') = Inr (str ''582''))"
proof -
  have h1: "DIZ (str ''num'') = Some NUM" by (simp add: DIZ_def str_def)
  have h2: "str ''137'' \<noteq> []" by (simp add: str_def)
  have h3: "set (str ''137'') \<subseteq> set NUM" by (simp add: NUM_def str_def)
  have h4: "set (str ''582'') \<subseteq> set NUM" by (simp add: NUM_def str_def)
  from encode_decode_round_trip [OF h1 h2 h3 h4, of id False] h1 h2 h3 h4
  show ?thesis by (intro conjI)
qed

section \<open>Padding\<close>

lemma py_int_draw:
  assumes "0 \<le> r" and "r < 1" and "0 \<le> mx"
  shows "0 \<le> py_int (r * of_int mx)" and "py_int (r * of_int mx) \<le> mx"
    and "0 < mx \<Longrightarrow> py_int (r * of_int mx) < mx"
proof -
  have nn: "0 \<le> r * of_int mx" using assms by simp
  then have eq: "py_int (r * of_int mx) = \<lfloor>r * of_int mx\<rfloor>" by (simp add: py_int_def)
  show "0 \<le> py_int (r * of_int mx)" using nn eq by simp
  have "r * of_int mx \<le> of_int mx" using assms by (simp add: mult_left_le_one_le)
  then show "py_int (r * of_int mx) \<le> mx" unfolding eq by (simp add: floor_le_iff)
  show "py_int (r * of_int mx) < mx" if "0 < mx"
  proof -
    have "r * of_int mx < 1 * of_int mx" using assms(2) that by (intro mult_strict_right_mono) simp_all
    then show ?thesis unfolding eq by (simp add: floor_less_iff)
  qed
qed

lemma redraw_result:
  assumes "\<forall>r\<in>set rs. 0 \<le> r \<and> r < 1" and "0 \<le> mx"
    and "redraw mx c2 rs = Some (c1, rs')"
  shows "c1 \<noteq> c2 \<and> 0 \<le> c1 \<and> c1 \<le> mx \<and> (0 < mx \<longrightarrow> c1 < mx) \<and> set rs' \<subseteq> set rs"
  using assms
proof (induction rs)
  case Nil
  then show ?case by simp
next
  case (Cons r rs)
  show ?case
  proof (cases "py_int (r * of_int mx) = c2")
    case True
    then have "redraw mx c2 rs = Some (c1, rs')" using Cons.prems(3) by simp
    with Cons.IH Cons.prems(1,2) show ?thesis by auto
  next
    case False
    then have "c1 = py_int (r * of_int mx)" "rs' = rs" using Cons.prems(3) by simp_all
    moreover have "0 \<le> r" "r < 1" using Cons.prems(1) by simp_all
    ultimately show ?thesis using False py_int_draw [of r mx] Cons.prems(2) by auto
  qed
qed



section \<open>Unpadding a padded buffer\<close>




section \<open>The padded round trip\<close>



section \<open>What a draw can be\<close>

lemma redraw_accepts:
  assumes "0 \<le> v" and "v < mx" and "v \<noteq> c2"
  shows "redraw mx c2 (of_int v / of_int mx # rs) = Some (v, rs)"
proof -
  have "(of_int v / of_int mx :: real) * of_int mx = of_int v" using assms by simp
  then have "py_int (of_int v / of_int mx * of_int mx) = v" using assms(1) by (simp add: py_int_def)
  then show ?thesis using assms(3) by simp
qed

text \<open>
  C5: every disturbance index is redrawn until it differs from the last element of the
  buffer, but it is \<open>int(r() * max)\<close> with \<open>max = len(dictionary) - 1\<close>, so it lies in the
  range from \<open>0\<close> to \<open>D - 2\<close>: the index \<open>D - 1\<close> of the last symbol is never drawn, and
  every index below it that differs from the last element is a possible draw.
\<close>

theorem redraw_never_last_index:
  assumes "\<forall>r\<in>set rs. 0 \<le> r \<and> r < 1" and "2 \<le> length d"
  shows "(redraw (int (length d) - 1) c2 rs = Some (c1, rs') \<longrightarrow>
            c1 \<noteq> c2 \<and> 0 \<le> c1 \<and> c1 < int (length d) - 1)
         \<and> redraw (int (length d) - 1) c2 rs \<noteq> Some (int (length d) - 1, rs')
         \<and> (0 \<le> v \<and> v < int (length d) - 1 \<and> v \<noteq> c2 \<longrightarrow>
              redraw (int (length d) - 1) c2 (of_int v / of_int (int (length d) - 1) # rs)
                = Some (v, rs))"
proof -
  have mx: "0 < int (length d) - 1" using assms(2) by arith
  have mx0: "0 \<le> int (length d) - 1" using assms(2) by arith
  have a: "c1 \<noteq> c2 \<and> 0 \<le> c1 \<and> c1 < int (length d) - 1"
    if "redraw (int (length d) - 1) c2 rs = Some (c1, rs')" for c1
    using redraw_result [OF assms(1) mx0 that] mx by simp
  then have b: "redraw (int (length d) - 1) c2 rs \<noteq> Some (int (length d) - 1, rs')" by fastforce
  have c: "0 \<le> v \<and> v < int (length d) - 1 \<and> v \<noteq> c2 \<longrightarrow>
             redraw (int (length d) - 1) c2 (of_int v / of_int (int (length d) - 1) # rs)
               = Some (v, rs)"
    using redraw_accepts by blast
  from a b c show ?thesis by blast
qed

theorem redraw_never_last_index_witness:
  "2 \<le> length NUM
   \<and> redraw (int (length NUM) - 1) 0 [999 / 1000] = Some (8, [])
   \<and> redraw (int (length NUM) - 1) 0 [999 / 1000] \<noteq> Some (int (length NUM) - 1, [])
   \<and> redraw (int (length NUM) - 1) 0 (of_int 3 / of_int (int (length NUM) - 1) # [999 / 1000])
       = Some (3, [999 / 1000])"
proof -
  have h1: "\<forall>r\<in>set [999 / 1000 :: real]. 0 \<le> r \<and> r < 1" by simp
  have h2: "2 \<le> length NUM" by (simp add: NUM_def str_def)
  have ev: "redraw (int (length NUM) - 1) 0 [999 / 1000] = Some (8, [])"
    by (simp add: NUM_def str_def py_int_def)
  from redraw_never_last_index [OF h1 h2, of 0 8 "[]" 3] h2 ev show ?thesis by simp
qed

section \<open>Draws enough for padding to finish\<close>

text \<open>
  A run that finished keeps its result when extra draws are supplied: \<open>None\<close> only ever
  means that the supplied draws were used up.
\<close>

lemma redraw_more_draws:
  "redraw mx c2 rs = Some (c1, rs') \<Longrightarrow> redraw mx c2 (rs @ extra) = Some (c1, rs' @ extra)"
  by (induction rs) (auto simp: Let_def split: if_splits)

lemma disturb_more_draws:
  "disturb mx n t rs = Some (t', rs') \<Longrightarrow> disturb mx n t (rs @ extra) = Some (t', rs' @ extra)"
proof (induction n arbitrary: t rs)
  case 0
  then show ?case by simp
next
  case (Suc n)
  from Suc.prems obtain c1 rs1 where
    dr: "redraw mx (last t) rs = Some (c1, rs1)" and rest: "disturb mx n (t @ [c1]) rs1 = Some (t', rs')"
    by (auto split: option.splits)
  show ?case using redraw_more_draws [OF dr, of extra] Suc.IH [OF rest] by simp
qed

lemma wide_pad_more_draws:
  assumes "wide_pad lenght rnd self = Some r"
  shows "wide_pad lenght (rnd @ extra) self = Some r"
proof (cases "text_buf self")
  case None
  then show ?thesis using assms by (simp add: wide_pad_def)
next
  case (Some t)
  show ?thesis
  proof (cases "t = []")
    case True
    then show ?thesis using assms Some by (simp add: wide_pad_def)
  next
    case False
    let ?t2 = "(hd t # t) @ [last (hd t # t)]"
    let ?cadd = "lenght - int (length ?t2)"
    let ?mx = "int (length (dictionary self)) - 1"
    from assms Some False obtain r0 rs where rnd: "rnd = r0 # rs"
      by (cases rnd) (auto simp: wide_pad_def)
    let ?cside = "py_int (r0 * of_int ?cadd)"
    from assms Some False rnd obtain t3 rs1 t4 rs2 where
      d1: "disturb ?mx (nat ?cside) ?t2 rs = Some (t3, rs1)"
      and d2: "disturb ?mx (nat (?cadd - ?cside)) (rev t3) rs1 = Some (t4, rs2)"
      and r: "r = Inr (self\<lparr>text_buf := Some (rev t4)\<rparr>)"
      by (auto simp: wide_pad_def Let_def split: option.splits)
    show ?thesis
      using Some False rnd r disturb_more_draws [OF d1, of extra] disturb_more_draws [OF d2, of extra]
      by (simp add: wide_pad_def Let_def)
  qed
qed

lemma wencode_more_draws:
  assumes "wencode sha T lenght create_signature rnd self = Some r"
  shows "wencode sha T lenght create_signature (rnd @ extra) self = Some r"
proof (cases "lenght > int (length T) + 2")
  case False
  then show ?thesis using assms by (simp add: wencode_def)
next
  case True
  show ?thesis
  proof (cases "build_input (dictionary self) T")
    case (Inl e)
    then show ?thesis using assms True by (simp add: wencode_def)
  next
    case (Inr t)
    from assms True Inr obtain p where p: "wide_pad lenght rnd (self\<lparr>text_buf := Some t\<rparr>) = Some p"
      by (auto simp: wencode_def wide_def Let_def split: option.splits)
    show ?thesis
      using assms True Inr p wide_pad_more_draws [OF p, of extra]
      by (simp add: wencode_def wide_def Let_def)
  qed
qed

text \<open>
  With at least three symbols in the alphabet (every registered one has ten or more)
  there are draws on which padding finishes: a draw of value 0 or 1 is always accepted.
\<close>

lemma disturb_can_finish:
  assumes "2 \<le> mx"
  shows "\<exists>rs t'. (\<forall>r\<in>set rs. 0 \<le> r \<and> r < 1) \<and> disturb mx n t rs = Some (t', [])"
proof (induction n arbitrary: t)
  case 0
  show ?case by (rule exI [of _ "[]"]) simp
next
  case (Suc n)
  define v :: int where "v = (if last t = 0 then 1 else 0)"
  have v: "0 \<le> v" "v < mx" "v \<noteq> last t"
  proof -
    show "0 \<le> v" by (simp add: v_def)
    show "v < mx" using assms by (simp add: v_def)
    show "v \<noteq> last t" by (cases "last t = 0") (simp_all add: v_def)
  qed
  from Suc [of "t @ [v]"] obtain rs t' where
    rs: "\<forall>r\<in>set rs. 0 \<le> r \<and> r < 1" and fin: "disturb mx n (t @ [v]) rs = Some (t', [])"
    by blast
  have r: "0 \<le> (of_int v / of_int mx :: real)" "(of_int v / of_int mx :: real) < 1"
    using v assms by simp_all
  have "disturb mx (Suc n) t (of_int v / of_int mx # rs) = Some (t', [])"
    using redraw_accepts [OF v, of rs] fin by simp
  with rs r show ?case by (intro exI [of _ "of_int v / of_int mx # rs"] exI [of _ t']) simp
qed

lemma wide_pad_can_finish:
  assumes "3 \<le> length (dictionary self)"
  shows "\<exists>rnd. (\<forall>r\<in>set rnd. 0 \<le> r \<and> r < 1) \<and> wide_pad lenght rnd self \<noteq> None"
proof (cases "text_buf self")
  case None
  then show ?thesis by (intro exI [of _ "[]"]) (simp add: wide_pad_def)
next
  case (Some t)
  show ?thesis
  proof (cases "t = []")
    case True
    then show ?thesis using Some by (intro exI [of _ "[]"]) (simp add: wide_pad_def)
  next
    case False
    let ?t2 = "(hd t # t) @ [last (hd t # t)]"
    let ?cadd = "lenght - int (length ?t2)"
    let ?mx = "int (length (dictionary self)) - 1"
    have mx: "2 \<le> ?mx" using assms by arith
    from disturb_can_finish [OF mx, of "nat ?cadd" "rev ?t2"] obtain rs t4 where
      rs: "\<forall>r\<in>set rs. 0 \<le> r \<and> r < 1"
      and fin: "disturb ?mx (nat ?cadd) (rev ?t2) rs = Some (t4, [])"
      by blast
    have "wide_pad lenght (0 # rs) self \<noteq> None"
      using Some False fin by (simp add: wide_pad_def py_int_def Let_def)
    with rs show ?thesis by (intro exI [of _ "0 # rs"]) simp
  qed
qed

lemma wencode_can_finish:
  assumes "3 \<le> length (dictionary self)"
  shows "\<exists>rnd. (\<forall>r\<in>set rnd. 0 \<le> r \<and> r < 1)
           \<and> wencode sha T lenght create_signature rnd self \<noteq> None"
proof (cases "build_input (dictionary self) T")
  case (Inl e)
  then show ?thesis by (intro exI [of _ "[]"]) (simp add: wencode_def)
next
  case (Inr t)
  have "3 \<le> length (dictionary (self\<lparr>text_buf := Some t\<rparr>))" using assms by simp
  from wide_pad_can_finish [OF this, of lenght] obtain rnd where
    rnd: "\<forall>r\<in>set rnd. 0 \<le> r \<and> r < 1" "wide_pad lenght rnd (self\<lparr>text_buf := Some t\<rparr>) \<noteq> None"
    by blast
  have "wencode sha T lenght create_signature rnd self \<noteq> None"
    using Inr rnd(2) by (auto simp: wencode_def wide_def Let_def split: sum.splits)
  with rnd(1) show ?thesis by blast
qed

lemma DIZ_length: "DIZ name = Some d \<Longrightarrow> 10 \<le> length d"
  by (auto dest!: DIZ_values
      simp: NUM_def HEX_def ALPHANUM_def ASCII_NOSPACE_def ASCII_def ASCIIEXT_NOSPACE_def
        ASCIIEXT_def MAIL_def SPACE_def str_def)

lemma wencode_finishes_on_registered:
  assumes "DIZ name = Some (dictionary self)"
  shows "\<exists>rnd. (\<forall>r\<in>set rnd. 0 \<le> r \<and> r < 1)
           \<and> wencode sha T lenght create_signature rnd self \<noteq> None"
proof -
  have "3 \<le> length (dictionary self)" using DIZ_length [OF assms] by simp
  then show ?thesis by (rule wencode_can_finish)
qed

section \<open>Decoding with another key\<close>

text \<open>
  A key that does not match need not give the empty string: the padded string of the
  worked example, made with key \<open>137\<close>, decodes under key \<open>248\<close> to \<open>471\<close>, because
  shifting every index by one keeps the adjacent equal pairs.
\<close>

lemma wdecode_wrong_key_not_empty:
  "fst (wdecode (str ''292619339'') (num137\<lparr>secretkey := [2, 4, 8]\<rparr>)) = Inr (str ''471'')"
proof -
  let ?c = "num137\<lparr>secretkey := [2, 4, 8]\<rparr>"
  have bi: "build_input (dictionary ?c) (str ''292619339'') = Inr [2, 9, 2, 6, 1, 9, 3, 3, 9]"
    by (simp add: num137_def NUM_def str_def)
  have r4: "replicate 4 k = [k, k, k, k]" for k :: "int list"
    by (simp add: numeral_eq_Suc)
  have tr: "translate False (?c\<lparr>text_buf := Some [2, 9, 2, 6, 1, 9, 3, 3, 9]\<rparr>)
            = Inr (?c\<lparr>text_buf := Some [0, 5, 4, 4, 7, 1, 1, 9, 1]\<rparr>)"
    by (simp add: translate_def num137_def NUM_def str_def Let_def r4)
  have p1: "unwide_pass [0, 5, 4, 4, 7, 1, 1, 9, 1] = Some [1, 9, 1, 1, 7, 4]"
    by (simp add: unwide_pass_def scan_from.simps)
  have p2: "unwide_pass [1, 9, 1, 1, 7, 4] = Some [4, 7, 1]"
    by (simp add: unwide_pass_def scan_from.simps)
  have un: "unwide (?c\<lparr>text_buf := Some [0, 5, 4, 4, 7, 1, 1, 9, 1]\<rparr>)
            = Inr (?c\<lparr>text_buf := Some [4, 7, 1]\<rparr>)"
    by (simp add: unwide_def unwide_loop_2 p1 p2)
  have out: "output (?c\<lparr>text_buf := Some [4, 7, 1]\<rparr>) = Inr (str ''471'')"
    by (simp add: output_def getitem_def num137_def NUM_def str_def)
  show ?thesis using bi tr un out by (simp add: wdecode_def)
qed

end
